theory Spec2Isabelle
  imports Main "HOL-Library.Word"
begin

section \<open>The self-scheduling counter object \<open>HelloObject23\<close>\<close>

text \<open>
  The sources are \<open>hello_object23.hh\<close> (the class, with its three data members
  \<open>event\<close>, \<open>latency\<close> and \<open>timesLeft\<close>) and \<open>hello_object23.cc\<close> (the constructor,
  \<open>processEvent\<close> and \<open>startup\<close>). The simulator that owns the clock and the event
  queue is not part of the sources; the little of it that the three functions call is
  modelled below, each piece marked as such.
\<close>

subsection \<open>Types\<close>

text \<open>
  Modelled from the spec: the type \<open>Tick\<close> (``the host's indivisible unit of simulated
  time'') is declared by the simulator, outside the sources. The simulator declares
  it as an unsigned 64-bit integer, so \<open>+\<close> on it wraps around at \<open>2 ^ 64\<close>.
\<close>

type_synonym Tick = "64 word"

text \<open>
  The member \<open>int timesLeft\<close> is a signed 32-bit integer: a \<open>32 word\<close> read with
  \<open>sint\<close>. Decrementing the least value is a signed overflow, which C++ leaves
  undefined; the model makes it an error value instead of choosing a result.
\<close>

datatype error = SignedOverflow

text \<open>
  Modelled from the spec: the parameter bundle (``containing at minimum a
  human-readable name''); its declaration is generated by the simulator's build.
\<close>

record HelloObject23Params =
  name :: string

text \<open>
  The member \<open>event\<close> wraps the closure \<open>[this] {processEvent();}\<close> together with
  the object's name. The closure is represented by a tag that says which member
  function it calls.
\<close>

datatype callback = ProcessEvent

record EventFunctionWrapper =
  callback :: callback
  ev_name :: string

record HelloObject23 =
  event :: EventFunctionWrapper
  latency :: Tick
  timesLeft :: "32 word"

subsection \<open>The host's clock and event queue\<close>

text \<open>
  Modelled from the spec: the host runtime is an external collaborator. What the
  object sees of it is the current time \<open>curTick()\<close> and the facility
  \<open>schedule(event, when)\<close>, which takes ``a zero-argument closure/handler'' and ``an
  absolute future time'' and returns nothing. \<open>queue\<close> holds the callbacks that were
  scheduled and have not fired yet, in the order of the scheduling calls;
  \<open>requests\<close> records the time argument of every scheduling call ever made.
\<close>

record host =
  curTick :: Tick
  queue :: "(Tick \<times> EventFunctionWrapper) list"
  requests :: "Tick list"

definition schedule :: "EventFunctionWrapper \<Rightarrow> Tick \<Rightarrow> host \<Rightarrow> host" where
  "schedule ev t h = h\<lparr>queue := queue h @ [(t, ev)], requests := requests h @ [t]\<rparr>"

subsection \<open>The member functions\<close>

text \<open>
  The constructor initialises the members from constants and makes no call into the
  host: the host state comes back as it went in. The trace output (\<open>DPRINTF\<close>) of the
  three functions has no effect on the state and is left out.
\<close>

definition HelloObject23_ctor ::
  "HelloObject23Params \<Rightarrow> host \<Rightarrow> HelloObject23 \<times> host" where
  "HelloObject23_ctor params h =
     (\<lparr>event = \<lparr>callback = ProcessEvent, ev_name = name params\<rparr>,
       latency = 100, timesLeft = 10\<rparr>, h)"

definition processEvent :: "HelloObject23 \<Rightarrow> host \<Rightarrow> error + HelloObject23 \<times> host" where
  "processEvent this h =
     (if sint (timesLeft this) = - (2 ^ 31) then Inl SignedOverflow
      else
        let this' = this\<lparr>timesLeft := timesLeft this - 1\<rparr> in
        if sint (timesLeft this') \<le> 0 then Inr (this', h)
        else Inr (this', schedule (event this') (curTick h + latency this') h))"

definition startup :: "HelloObject23 \<Rightarrow> host \<Rightarrow> HelloObject23 \<times> host" where
  "startup this h = (this, schedule (event this) (latency this) h)"

subsection \<open>The host's side of the life cycle\<close>

text \<open>
  Modelled from the spec: a callback is ``invoked by the host at the previously
  scheduled time'', and callbacks of one object are delivered ``strictly in the order
  they were scheduled''. One firing takes the oldest pending entry off the queue,
  sets the clock to its time and runs its closure. With nothing pending there is
  nothing to fire: \<open>None\<close>.
\<close>

definition fire :: "HelloObject23 \<times> host \<Rightarrow> (error + HelloObject23 \<times> host) option" where
  "fire s =
     (case queue (snd s) of
        [] \<Rightarrow> None
      | (t, ev) # q \<Rightarrow>
          (case callback ev of
             ProcessEvent \<Rightarrow> Some (processEvent (fst s) ((snd s)\<lparr>curTick := t, queue := q\<rparr>))))"

text \<open>\<open>fires n s\<close>: exactly \<open>n\<close> firings in a row, stopping at the first error.\<close>

fun fires :: "nat \<Rightarrow> HelloObject23 \<times> host \<Rightarrow> (error + HelloObject23 \<times> host) option" where
  "fires 0 s = Some (Inr s)"
| "fires (Suc n) s =
     (case fire s of
        None \<Rightarrow> None
      | Some (Inl e) \<Rightarrow> Some (Inl e)
      | Some (Inr s') \<Rightarrow> fires n s')"

text \<open>
  Modelled from the spec: the host calls the activation hook ``exactly once after full
  object-graph construction, before simulated time begins advancing''. The states an
  object goes through are therefore the constructed one (\<open>lifecycle 0\<close>) and those
  after activation and \<open>k\<close> firings (\<open>lifecycle (Suc k)\<close>).
\<close>

fun lifecycle :: "nat \<Rightarrow> HelloObject23 \<times> host \<Rightarrow> (error + HelloObject23 \<times> host) option" where
  "lifecycle 0 s = Some (Inr s)"
| "lifecycle (Suc k) s = fires k (startup (fst s) (snd s))"

section \<open>Arithmetic of the counter\<close>

lemma sint_dec:
  fixes c :: "32 word"
  assumes "sint c \<noteq> - (2 ^ 31)"
  shows "sint (c - 1) = sint c - 1"
proof -
  have lo: "- (2 ^ 31) \<le> sint c" using sint_ge [of c] by simp
  have hi: "sint c < 2 ^ 31" using sint_lt [of c] by simp
  have "sint (c - 1) = signed_take_bit 31 (sint c - 1)"
    by (simp add: sint_word_ariths)
  also have "\<dots> = sint c - 1"
    using lo hi assms by (intro signed_take_bit_int_eq_self) auto
  finally show ?thesis .
qed


section \<open>One step of each operation\<close>

lemma processEvent_defined:
  assumes "sint (timesLeft this) \<noteq> - (2 ^ 31)"
  shows "processEvent this h =
     Inr (this\<lparr>timesLeft := timesLeft this - 1\<rparr>,
          if sint (timesLeft this) \<le> 1 then h
          else schedule (event this) (curTick h + latency this) h)"
  using assms by (simp add: processEvent_def Let_def sint_dec)

lemma processEvent_overflow:
  "sint (timesLeft this) = - (2 ^ 31) \<Longrightarrow> processEvent this h = Inl SignedOverflow"
  by (simp add: processEvent_def)

lemma fire_empty: "queue h = [] \<Longrightarrow> fire (this, h) = None"
  by (simp add: fire_def)

lemma fire_pending:
  "queue h = (t, ev) # q \<Longrightarrow>
   fire (this, h) = Some (processEvent this (h\<lparr>curTick := t, queue := q\<rparr>))"
  by (simp add: fire_def split: callback.split)

lemma fires_snoc:
  "fires (Suc n) s =
     (case fires n s of
        None \<Rightarrow> None
      | Some (Inl e) \<Rightarrow> Some (Inl e)
      | Some (Inr s') \<Rightarrow> fire s')"
proof (induction n arbitrary: s)
  case 0
  show ?case by (simp split: option.split sum.split)
next
  case (Suc n)
  show ?case
  proof (cases "fire s")
    case None
    then show ?thesis by simp
  next
    case (Some r)
    show ?thesis
    proof (cases r)
      case (Inl e)
      with Some show ?thesis by simp
    next
      case (Inr s1)
      have "fires (Suc (Suc n)) s = fires (Suc n) s1"
        using Some Inr by simp
      also have "\<dots> = (case fires n s1 of None \<Rightarrow> None | Some (Inl e) \<Rightarrow> Some (Inl e)
                        | Some (Inr s') \<Rightarrow> fire s')"
        by (rule Suc.IH)
      also have "fires n s1 = fires (Suc n) s"
        using Some Inr by simp
      finally show ?thesis .
    qed
  qed
qed

section \<open>The countdown in closed form\<close>

lemma fires_active:
  assumes q: "queue h = [(t, event this)]"
    and k: "int k < sint (timesLeft this)"
  shows "fires k (this, h) =
           Some (Inr (this\<lparr>timesLeft := timesLeft this - of_nat k\<rparr>,
                      h\<lparr>curTick := (if k = 0 then curTick h else t + of_nat (k - 1) * latency this),
                        queue := [(t + of_nat k * latency this, event this)],
                        requests := requests h @ map (\<lambda>i. t + of_nat i * latency this) [1..<Suc k]\<rparr>))
         \<and> sint (timesLeft this - of_nat k) = sint (timesLeft this) - int k"
  using k
proof (induction k)
  case 0
  have "h\<lparr>curTick := curTick h, queue := [(t, event this)], requests := requests h\<rparr> = h"
    using q by simp
  then show ?case by simp
next
  case (Suc k)
  let ?c = "timesLeft this - of_nat k"
  let ?obj = "this\<lparr>timesLeft := ?c\<rparr>"
  let ?h = "h\<lparr>curTick := (if k = 0 then curTick h else t + of_nat (k - 1) * latency this),
              queue := [(t + of_nat k * latency this, event this)],
              requests := requests h @ map (\<lambda>i. t + of_nat i * latency this) [1..<Suc k]\<rparr>"
  from Suc.prems have k: "int k < sint (timesLeft this)" by simp
  from Suc.IH [OF k] have run: "fires k (this, h) = Some (Inr (?obj, ?h))"
    and cnt: "sint ?c = sint (timesLeft this) - int k" by simp_all
  from cnt Suc.prems have big: "1 < sint ?c" by simp
  have lo: "sint (timesLeft ?obj) \<noteq> - (2 ^ 31)" using big by simp
  have w: "?c - 1 = timesLeft this - of_nat (Suc k)" by simp
  have "fire (?obj, ?h) =
          Some (processEvent ?obj (?h\<lparr>curTick := t + of_nat k * latency this, queue := []\<rparr>))"
    by (rule fire_pending) simp
  also have "\<dots> = Some (Inr (this\<lparr>timesLeft := timesLeft this - of_nat (Suc k)\<rparr>,
       h\<lparr>curTick := t + of_nat k * latency this,
         queue := [(t + of_nat (Suc k) * latency this, event this)],
         requests := requests h @ map (\<lambda>i. t + of_nat i * latency this) [1..<Suc (Suc k)]\<rparr>))"
    using big by (simp add: processEvent_defined [OF lo] schedule_def algebra_simps)
  finally have step: "fire (?obj, ?h) = Some (Inr (this\<lparr>timesLeft := timesLeft this - of_nat (Suc k)\<rparr>,
       h\<lparr>curTick := t + of_nat k * latency this,
         queue := [(t + of_nat (Suc k) * latency this, event this)],
         requests := requests h @ map (\<lambda>i. t + of_nat i * latency this) [1..<Suc (Suc k)]\<rparr>))" .
  have "sint (?c - 1) = sint ?c - 1" using big by (intro sint_dec) simp
  then have cnt': "sint (timesLeft this - of_nat (Suc k)) = sint (timesLeft this) - int (Suc k)"
    using cnt w by simp
  have "fires (Suc k) (this, h) = fire (?obj, ?h)"
    by (simp only: fires_snoc run option.case sum.case)
  with step cnt' show ?case by simp
qed

lemma fires_done:
  assumes q: "queue h = [(t, event this)]"
    and pos: "0 < sint (timesLeft this)"
  shows "fires (nat (sint (timesLeft this))) (this, h) =
           Some (Inr (this\<lparr>timesLeft := 0\<rparr>,
                      h\<lparr>curTick := t + of_nat (nat (sint (timesLeft this)) - 1) * latency this,
                        queue := [],
                        requests := requests h @
                          map (\<lambda>i. t + of_nat i * latency this) [1..<nat (sint (timesLeft this))]\<rparr>))"
proof -
  define k where "k = nat (sint (timesLeft this)) - 1"
  have N: "nat (sint (timesLeft this)) = Suc k" using pos by (simp add: k_def)
  have k: "int k < sint (timesLeft this)" using pos by (simp add: k_def)
  let ?c = "timesLeft this - of_nat k"
  let ?obj = "this\<lparr>timesLeft := ?c\<rparr>"
  let ?h = "h\<lparr>curTick := (if k = 0 then curTick h else t + of_nat (k - 1) * latency this),
              queue := [(t + of_nat k * latency this, event this)],
              requests := requests h @ map (\<lambda>i. t + of_nat i * latency this) [1..<Suc k]\<rparr>"
  from fires_active [OF q k] have run: "fires k (this, h) = Some (Inr (?obj, ?h))"
    and cnt: "sint ?c = sint (timesLeft this) - int k" by simp_all
  from cnt pos have one: "sint ?c = 1" by (simp add: k_def)
  then have "sint ?c = sint (1 :: 32 word)" by simp
  then have c1: "?c = 1" by (rule signed_word_eqI)
  have lo: "sint (timesLeft ?obj) \<noteq> - (2 ^ 31)" using one by simp
  have "fire (?obj, ?h) =
          Some (processEvent ?obj (?h\<lparr>curTick := t + of_nat k * latency this, queue := []\<rparr>))"
    by (rule fire_pending) simp
  also have "\<dots> = Some (Inr (this\<lparr>timesLeft := 0\<rparr>,
       h\<lparr>curTick := t + of_nat k * latency this, queue := [],
         requests := requests h @ map (\<lambda>i. t + of_nat i * latency this) [1..<Suc k]\<rparr>))"
    using c1 by (simp add: processEvent_def)
  finally have step: "fire (?obj, ?h) = Some (Inr (this\<lparr>timesLeft := 0\<rparr>,
       h\<lparr>curTick := t + of_nat k * latency this, queue := [],
         requests := requests h @ map (\<lambda>i. t + of_nat i * latency this) [1..<Suc k]\<rparr>))" .
  have "fires (Suc k) (this, h) = fire (?obj, ?h)"
    by (simp only: fires_snoc run option.case sum.case)
  with step show ?thesis unfolding N by simp
qed

lemma fires_None_mono: "fires m s = None \<Longrightarrow> m \<le> n \<Longrightarrow> fires n s = None"
proof (induction n)
  case 0
  then show ?case by simp
next
  case (Suc n)
  show ?case
  proof (cases "m = Suc n")
    case True
    with Suc.prems show ?thesis by simp
  next
    case False
    with Suc.prems have "fires n s = None" by (auto intro: Suc.IH)
    then show ?thesis by (simp only: fires_snoc option.case)
  qed
qed

lemma fires_beyond:
  assumes q: "queue h = [(t, event this)]"
    and pos: "0 < sint (timesLeft this)"
    and n: "nat (sint (timesLeft this)) < n"
  shows "fires n (this, h) = None"
proof -
  let ?N = "nat (sint (timesLeft this))"
  have "fires (Suc ?N) (this, h) = None"
    by (simp only: fires_snoc fires_done [OF q pos] option.case sum.case)
       (simp add: fire_empty)
  then show ?thesis by (rule fires_None_mono) (use n in simp)
qed

lemma startup_eq:
  "startup this h = (this, h\<lparr>queue := queue h @ [(latency this, event this)],
                               requests := requests h @ [latency this]\<rparr>)"
  by (simp add: startup_def schedule_def)

lemma fire_frame:
  assumes "fire s = Some (Inr s')"
  shows "fst s' = (fst s)\<lparr>timesLeft := timesLeft (fst s) - 1\<rparr>"
proof -
  obtain t ev q where q: "queue (snd s) = (t, ev) # q"
    using assms by (cases "queue (snd s)") (auto simp: fire_def)
  have "fire (fst s, snd s) = Some (processEvent (fst s) ((snd s)\<lparr>curTick := t, queue := q\<rparr>))"
    using q by (rule fire_pending)
  with assms have pe: "processEvent (fst s) ((snd s)\<lparr>curTick := t, queue := q\<rparr>) = Inr s'"
    by simp
  then show ?thesis
    by (auto simp: processEvent_def Let_def split: if_splits)
qed

lemma fires_frame:
  "fires n s = Some (Inr s') \<Longrightarrow>
   latency (fst s') = latency (fst s) \<and> event (fst s') = event (fst s)"
proof (induction n arbitrary: s')
  case 0
  then show ?case by simp
next
  case (Suc n)
  from Suc.prems obtain s1 where run: "fires n s = Some (Inr s1)" and f: "fire s1 = Some (Inr s')"
    by (auto simp only: fires_snoc split: option.splits sum.splits)
  from Suc.IH [OF run] fire_frame [OF f] show ?case by simp
qed

lemma fires_upto:
  assumes q: "queue h = [(t, event this)]"
    and pos: "0 < sint (timesLeft this)"
    and k: "int k \<le> sint (timesLeft this)"
  shows "\<exists>this' h'. fires k (this, h) = Some (Inr (this', h')) \<and>
           sint (timesLeft this') = sint (timesLeft this) - int k \<and>
           queue h' = (if int k < sint (timesLeft this)
                       then [(t + of_nat k * latency this, event this)] else []) \<and>
           length (requests h') =
             length (requests h) + (if int k < sint (timesLeft this) then k else k - 1)"
proof (cases "int k < sint (timesLeft this)")
  case True
  from fires_active [OF q True] True show ?thesis by simp
next
  case False
  with k have kN: "k = nat (sint (timesLeft this))" by simp
  from fires_done [OF q pos] False pos show ?thesis unfolding kN by simp
qed

section \<open>The claims\<close>

subsection \<open>Construction\<close>

text \<open>
  C7. Construction stores the delay (100) and the initial counter (10) and makes no
  scheduling call: the host state after the constructor is the host state before it.
  The first scheduling call is the one made by \<open>startup\<close>, which adds one request, for
  time 100, to those recorded so far.
\<close>

theorem ctor_stores_and_schedules_nothing:
  "latency (fst (HelloObject23_ctor params h)) = 100 \<and>
   timesLeft (fst (HelloObject23_ctor params h)) = 10 \<and>
   snd (HelloObject23_ctor params h) = h \<and>
   requests (snd (startup (fst (HelloObject23_ctor params h))
                          (snd (HelloObject23_ctor params h)))) = requests h @ [100]"
  by (simp add: HelloObject23_ctor_def startup_eq)

subsection \<open>Activation\<close>

text \<open>
  C2. The claim asks for the first firing to be requested at ``now + delay'' at every
  host time at which activation may occur. \<open>startup\<close> passes \<open>latency\<close> alone as the
  absolute time, where \<open>processEvent\<close> passes \<open>curTick() + latency\<close>. Evaluated for the
  object as constructed, activated at host time 5: the request is for time 100, and
  \<open>5 + 100\<close> is not 100.
\<close>

theorem startup_at_tick_5:
  "startup (fst (HelloObject23_ctor \<lparr>name = ''hello''\<rparr> \<lparr>curTick = 5, queue = [], requests = []\<rparr>))
           \<lparr>curTick = 5, queue = [], requests = []\<rparr> =
     (\<lparr>event = \<lparr>callback = ProcessEvent, ev_name = ''hello''\<rparr>, latency = 100, timesLeft = 10\<rparr>,
      \<lparr>curTick = 5, queue = [(100, \<lparr>callback = ProcessEvent, ev_name = ''hello''\<rparr>)],
        requests = [100]\<rparr>) \<and>
   (5 :: Tick) + 100 \<noteq> 100"
  by (simp add: HelloObject23_ctor_def startup_eq)

text \<open>
  In general the request made by \<open>startup\<close> does not depend on the host's clock, and
  it is ``now + delay'' exactly when activation happens at host time 0.
\<close>

lemma startup_request_absolute:
  "requests (snd (startup this h)) = requests h @ [latency this]"
  by (simp add: startup_eq)

lemma startup_now_plus_delay_iff:
  "last (requests (snd (startup this h))) = curTick h + latency this \<longleftrightarrow> curTick h = 0"
  by (simp add: startup_eq)

subsection \<open>One firing\<close>

text \<open>
  C9, as amended. Whenever the counter is above the least \<open>int\<close> value, an invocation
  of the callback returns normally with the counter decremented by exactly 1, whatever
  its sign. When the counter was already \<open>\<le> 0\<close>, it becomes more negative and the
  host state is untouched: no callback is scheduled.
\<close>

theorem processEvent_decrements:
  assumes "sint (timesLeft this) \<noteq> - (2 ^ 31)"
  shows "\<exists>this' h'. processEvent this h = Inr (this', h') \<and>
           sint (timesLeft this') = sint (timesLeft this) - 1 \<and>
           (sint (timesLeft this) \<le> 0 \<longrightarrow> sint (timesLeft this') < 0 \<and> h' = h)"
  using assms by (simp add: processEvent_defined sint_dec)

theorem processEvent_decrements_witness:
  "\<exists>this' h'.
     processEvent \<lparr>event = \<lparr>callback = ProcessEvent, ev_name = ''hello''\<rparr>,
                    latency = 100, timesLeft = - 3\<rparr>
                  \<lparr>curTick = 700, queue = [], requests = [100]\<rparr> = Inr (this', h') \<and>
     sint (timesLeft this') = - 4 \<and> h' = \<lparr>curTick = 700, queue = [], requests = [100]\<rparr>"
  using processEvent_decrements
    [of "\<lparr>event = \<lparr>callback = ProcessEvent, ev_name = ''hello''\<rparr>,
          latency = 100, timesLeft = - 3\<rparr>"
        "\<lparr>curTick = 700, queue = [], requests = [100]\<rparr>"]
  by auto

text \<open>
  C9 as stated fails at the least \<open>int\<close> value: the counter is \<open>\<le> 0\<close>, and the
  invocation does not yield a state whose counter is one less, since \<open>- 2147483648 - 1\<close>
  is not an \<open>int\<close>; the decrement is a signed overflow.
\<close>

theorem processEvent_least_int_counterexample:
  "sint (timesLeft \<lparr>event = \<lparr>callback = ProcessEvent, ev_name = ''hello''\<rparr>,
                    latency = 100, timesLeft = - 2147483648\<rparr>) \<le> 0 \<and>
   processEvent \<lparr>event = \<lparr>callback = ProcessEvent, ev_name = ''hello''\<rparr>,
                  latency = 100, timesLeft = - 2147483648\<rparr>
                \<lparr>curTick = 700, queue = [], requests = [100]\<rparr> = Inl SignedOverflow"
  by (simp add: processEvent_def)

text \<open>
  C4. A firing at time \<open>t\<close> (the host has taken the entry for \<open>t\<close> off the queue and set
  its clock to \<open>t\<close>) that leaves the counter above 0 makes exactly one scheduling call,
  for the time \<open>t + latency\<close>. The sum is the one of the type \<open>Tick\<close>; as long as it
  stays below \<open>2 ^ 64\<close> it is the sum of the two numbers.
\<close>

theorem next_firing_time:
  assumes q: "queue h = (t, ev) # q"
    and f: "fire (this, h) = Some (Inr (this', h'))"
    and live: "0 < sint (timesLeft this')"
  shows "curTick h' = t \<and>
         queue h' = q @ [(t + latency this, event this)] \<and>
         requests h' = requests h @ [t + latency this] \<and>
         (unat t + unat (latency this) < 2 ^ 64 \<longrightarrow>
            unat (last (requests h')) = unat t + unat (latency this))"
proof -
  from fire_pending [OF q, of this] f
  have pe: "processEvent this (h\<lparr>curTick := t, queue := q\<rparr>) = Inr (this', h')" by simp
  then have ok: "sint (timesLeft this) \<noteq> - (2 ^ 31)"
    by (auto simp: processEvent_def split: if_splits)
  from pe processEvent_defined [OF ok]
  have eq: "(this', h') = (this\<lparr>timesLeft := timesLeft this - 1\<rparr>,
          if sint (timesLeft this) \<le> 1 then h\<lparr>curTick := t, queue := q\<rparr>
          else schedule (event this) (curTick (h\<lparr>curTick := t, queue := q\<rparr>) + latency this)
                 (h\<lparr>curTick := t, queue := q\<rparr>))" by simp
  with live sint_dec [OF ok] have big: "1 < sint (timesLeft this)" by simp
  with eq have h': "h' = h\<lparr>curTick := t, queue := q @ [(t + latency this, event this)],
                            requests := requests h @ [t + latency this]\<rparr>"
    by (simp add: schedule_def)
  have "unat t + unat (latency this) < 2 ^ 64 \<longrightarrow>
          unat (t + latency this) = unat t + unat (latency this)"
    using unat_add_lem [of t "latency this"] by simp
  with h' show ?thesis by simp
qed

theorem next_firing_time_witness:
  "\<exists>this' h'.
     fire (\<lparr>event = \<lparr>callback = ProcessEvent, ev_name = ''hello''\<rparr>,
             latency = 100, timesLeft = 10\<rparr>,
           \<lparr>curTick = 0, queue = [(100, \<lparr>callback = ProcessEvent, ev_name = ''hello''\<rparr>)],
             requests = [100]\<rparr>) = Some (Inr (this', h')) \<and>
     0 < sint (timesLeft this') \<and> curTick h' = 100 \<and>
     queue h' = [(200, \<lparr>callback = ProcessEvent, ev_name = ''hello''\<rparr>)] \<and>
     requests h' = [100, 200] \<and> unat (last (requests h')) = 200"
proof -
  let ?ev = "\<lparr>callback = ProcessEvent, ev_name = ''hello''\<rparr>"
  let ?o = "\<lparr>event = ?ev, latency = 100, timesLeft = 10\<rparr>"
  let ?h = "\<lparr>curTick = 0, queue = [(100, ?ev)], requests = [100]\<rparr>"
  let ?o' = "\<lparr>event = ?ev, latency = 100, timesLeft = 9\<rparr>"
  let ?h' = "\<lparr>curTick = 100, queue = [(200, ?ev)], requests = [100, 200]\<rparr>"
  have q: "queue ?h = (100, ?ev) # []" by simp
  have f: "fire (?o, ?h) = Some (Inr (?o', ?h'))"
    by (simp add: fire_def processEvent_def schedule_def)
  have live: "0 < sint (timesLeft ?o')" by simp
  from next_firing_time [OF q f live] f show ?thesis by simp
qed

subsection \<open>The whole countdown\<close>

text \<open>
  C1. For an object with counter \<open>N > 0\<close> and any delay, constructed on a host with
  nothing pending: activation followed by \<open>N\<close> firings succeeds; after \<open>k \<le> N\<close> of them
  the counter is \<open>N - k\<close>, so each firing decrements once; the counter ends \<open>\<le> 0\<close>;
  nothing is pending afterwards, an \<open>(N+1)\<close>-th firing does not exist, and exactly \<open>N\<close>
  scheduling calls were made in all (one by activation, \<open>N - 1\<close> by the firings).
\<close>

theorem N_firings:
  assumes cnt: "sint (timesLeft this) = int N"
    and pos: "0 < N"
    and q: "queue h = []"
  shows "\<exists>this' h'.
           fires N (startup this h) = Some (Inr (this', h')) \<and>
           sint (timesLeft this') = sint (timesLeft this) - int N \<and>
           sint (timesLeft this') \<le> 0 \<and>
           queue h' = [] \<and>
           fire (this', h') = None \<and>
           fires (Suc N) (startup this h) = None \<and>
           length (requests h') = length (requests h) + N \<and>
           (\<forall>k\<le>N. \<exists>this\<^sub>k h\<^sub>k.
              fires k (startup this h) = Some (Inr (this\<^sub>k, h\<^sub>k)) \<and>
              sint (timesLeft this\<^sub>k) = sint (timesLeft this) - int k)"
proof -
  let ?h = "h\<lparr>queue := queue h @ [(latency this, event this)],
              requests := requests h @ [latency this]\<rparr>"
  have q1: "queue ?h = [(latency this, event this)]" using q by simp
  have pos': "0 < sint (timesLeft this)" using cnt pos by simp
  have N: "nat (sint (timesLeft this)) = N" using cnt by simp
  from fires_upto [OF q1 pos', of N] cnt pos
  obtain this' h' where run: "fires N (this, ?h) = Some (Inr (this', h'))"
    and c: "sint (timesLeft this') = sint (timesLeft this) - int N"
    and e: "queue h' = []"
    and r: "length (requests h') = length (requests h) + N"
    by auto
  have beyond: "fires (Suc N) (this, ?h) = None"
    using fires_beyond [OF q1 pos', of "Suc N"] N by simp
  have each: "\<forall>k\<le>N. \<exists>this\<^sub>k h\<^sub>k.
              fires k (this, ?h) = Some (Inr (this\<^sub>k, h\<^sub>k)) \<and>
              sint (timesLeft this\<^sub>k) = sint (timesLeft this) - int k"
  proof (intro allI impI)
    fix k assume "k \<le> N"
    then have "int k \<le> sint (timesLeft this)" using cnt by simp
    from fires_upto [OF q1 pos' this]
    show "\<exists>this\<^sub>k h\<^sub>k. fires k (this, ?h) = Some (Inr (this\<^sub>k, h\<^sub>k)) \<and>
              sint (timesLeft this\<^sub>k) = sint (timesLeft this) - int k"
      by blast
  qed
  from run c e r beyond each cnt show ?thesis
    by (simp add: startup_eq fire_empty)
qed

theorem N_firings_witness:
  "\<exists>this' h'.
     fires 3 (startup \<lparr>event = \<lparr>callback = ProcessEvent, ev_name = ''hello''\<rparr>,
                       latency = 7, timesLeft = 3\<rparr>
                     \<lparr>curTick = 0, queue = [], requests = []\<rparr>) = Some (Inr (this', h')) \<and>
     sint (timesLeft this') = 0 \<and> queue h' = [] \<and> length (requests h') = 3"
  using N_firings
    [of "\<lparr>event = \<lparr>callback = ProcessEvent, ev_name = ''hello''\<rparr>,
          latency = 7, timesLeft = 3\<rparr>" 3
        "\<lparr>curTick = 0, queue = [], requests = []\<rparr>"]
  by auto

text \<open>
  C8. For every initial counter \<open>N > 0\<close> the counter after the \<open>N\<close>-th firing is exactly
  0, and that firing is the terminal one. After each of the earlier firings the
  counter is still positive and a callback is pending. The \<open>N\<close>-th firing makes no
  scheduling call (the requests are those recorded after firing \<open>N - 1\<close>) and leaves
  nothing pending, so no firing can follow: \<open>fires (Suc N)\<close> is \<open>None\<close>. Hence every
  state the countdown reaches has a counter \<open>\<ge> 0\<close>, never a negative one, and the
  counter is 0 in the state after firing \<open>N\<close> and in no other.
\<close>

theorem terminal_counter_is_zero:
  assumes cnt: "sint (timesLeft this) = int N"
    and pos: "0 < N"
    and q: "queue h = []"
  shows "\<exists>this' h'.
           fires N (startup this h) = Some (Inr (this', h')) \<and>
           timesLeft this' = 0 \<and>
           sint (timesLeft this') = 0 \<and>
           (\<forall>k<N. \<exists>this\<^sub>k h\<^sub>k.
              fires k (startup this h) = Some (Inr (this\<^sub>k, h\<^sub>k)) \<and>
              0 < sint (timesLeft this\<^sub>k) \<and> queue h\<^sub>k \<noteq> []) \<and>
           queue h' = [] \<and>
           fire (this', h') = None \<and>
           fires (Suc N) (startup this h) = None \<and>
           (\<exists>this\<^sub>p h\<^sub>p.
              fires (N - 1) (startup this h) = Some (Inr (this\<^sub>p, h\<^sub>p)) \<and>
              requests h' = requests h\<^sub>p) \<and>
           (\<forall>m this'' h''.
              fires m (startup this h) = Some (Inr (this'', h'')) \<longrightarrow>
              m \<le> N \<and> 0 \<le> sint (timesLeft this'') \<and>
              (sint (timesLeft this'') = 0 \<longleftrightarrow> m = N))"
proof -
  let ?h = "h\<lparr>queue := queue h @ [(latency this, event this)],
              requests := requests h @ [latency this]\<rparr>"
  let ?h' = "?h\<lparr>curTick := latency this + of_nat (N - 1) * latency this, queue := [],
                requests := requests ?h @
                  map (\<lambda>i. latency this + of_nat i * latency this) [1..<N]\<rparr>"
  have q1: "queue ?h = [(latency this, event this)]" using q by simp
  have pos': "0 < sint (timesLeft this)" using cnt pos by simp
  have N: "nat (sint (timesLeft this)) = N" using cnt by simp
  have last: "fires N (this, ?h) = Some (Inr (this\<lparr>timesLeft := 0\<rparr>, ?h'))"
    using fires_done [OF q1 pos'] unfolding N .
  have before: "\<forall>k<N. \<exists>this\<^sub>k h\<^sub>k.
              fires k (this, ?h) = Some (Inr (this\<^sub>k, h\<^sub>k)) \<and>
              0 < sint (timesLeft this\<^sub>k) \<and> queue h\<^sub>k \<noteq> []"
  proof (intro allI impI)
    fix k assume "k < N"
    then have k: "int k < sint (timesLeft this)" using cnt by simp
    from fires_active [OF q1 k] k
    show "\<exists>this\<^sub>k h\<^sub>k. fires k (this, ?h) = Some (Inr (this\<^sub>k, h\<^sub>k)) \<and>
              0 < sint (timesLeft this\<^sub>k) \<and> queue h\<^sub>k \<noteq> []"
      by simp
  qed
  have idle: "fire (this\<lparr>timesLeft := 0\<rparr>, ?h') = None"
    by (rule fire_empty) simp
  have beyond: "fires (Suc N) (this, ?h) = None"
    using fires_beyond [OF q1 pos', of "Suc N"] N by simp
  have prev: "\<exists>this\<^sub>p h\<^sub>p.
              fires (N - 1) (this, ?h) = Some (Inr (this\<^sub>p, h\<^sub>p)) \<and>
              requests ?h' = requests h\<^sub>p"
  proof -
    have p: "int (N - 1) < sint (timesLeft this)" using cnt pos by simp
    have "Suc (N - 1) = N" using pos by simp
    with fires_active [OF q1 p] show ?thesis by simp
  qed
  have never: "\<forall>m this'' h''.
              fires m (this, ?h) = Some (Inr (this'', h'')) \<longrightarrow>
              m \<le> N \<and> 0 \<le> sint (timesLeft this'') \<and>
              (sint (timesLeft this'') = 0 \<longleftrightarrow> m = N)"
  proof (intro allI impI)
    fix m this'' h''
    assume run: "fires m (this, ?h) = Some (Inr (this'', h''))"
    have m: "m \<le> N"
    proof (rule ccontr)
      assume "\<not> m \<le> N"
      then have "nat (sint (timesLeft this)) < m" using N by simp
      from fires_beyond [OF q1 pos' this] run show False by simp
    qed
    then have "int m \<le> sint (timesLeft this)" using cnt by simp
    from fires_upto [OF q1 pos' this] run
    have "sint (timesLeft this'') = sint (timesLeft this) - int m" by auto
    with m cnt show "m \<le> N \<and> 0 \<le> sint (timesLeft this'') \<and>
              (sint (timesLeft this'') = 0 \<longleftrightarrow> m = N)"
      by auto
  qed
  from last before idle beyond prev never show ?thesis
    by (simp add: startup_eq)
qed

theorem terminal_counter_is_zero_witness:
  "\<exists>this' h'.
     fires 2 (startup \<lparr>event = \<lparr>callback = ProcessEvent, ev_name = ''hello''\<rparr>,
                       latency = 7, timesLeft = 2\<rparr>
                     \<lparr>curTick = 0, queue = [], requests = []\<rparr>) = Some (Inr (this', h')) \<and>
     timesLeft this' = 0 \<and> queue h' = [] \<and>
     fires 3 (startup \<lparr>event = \<lparr>callback = ProcessEvent, ev_name = ''hello''\<rparr>,
                       latency = 7, timesLeft = 2\<rparr>
                     \<lparr>curTick = 0, queue = [], requests = []\<rparr>) = None"
  using terminal_counter_is_zero
    [of "\<lparr>event = \<lparr>callback = ProcessEvent, ev_name = ''hello''\<rparr>,
          latency = 7, timesLeft = 2\<rparr>" 2
        "\<lparr>curTick = 0, queue = [], requests = []\<rparr>"]
  by (auto simp: numeral_3_eq_3 numeral_2_eq_2 simp del: fires.simps)

text \<open>
  C5. The object as the constructor builds it (counter 10, delay 100), on a host with
  nothing pending and any clock value \<open>t0\<close>. Activation (\<open>k = 0\<close>) requests firing 1 at
  time 100. After firing \<open>k\<close>, for \<open>1 \<le> k \<le> 10\<close>, the clock is \<open>100 * k\<close>, the counter is
  \<open>10 - k\<close>, and for \<open>k < 10\<close> firing \<open>k + 1\<close> is pending at \<open>100 * (k + 1)\<close>, while
  after firing 10 the counter is 0 and nothing is pending. The requests made are
  100, 200, ..., 1000 in this order, and there is no firing 11.
\<close>

theorem ten_firings:
  assumes k: "k \<le> 10"
  shows "fires k (case HelloObject23_ctor params \<lparr>curTick = t0, queue = [], requests = []\<rparr> of
                    (this, h) \<Rightarrow> startup this h) =
           Some (Inr (\<lparr>event = \<lparr>callback = ProcessEvent, ev_name = name params\<rparr>,
                        latency = 100, timesLeft = 10 - of_nat k\<rparr>,
                      \<lparr>curTick = (if k = 0 then t0 else 100 * of_nat k),
                        queue = (if k < 10
                                 then [(100 * of_nat (Suc k),
                                        \<lparr>callback = ProcessEvent, ev_name = name params\<rparr>)]
                                 else []),
                        requests = map (\<lambda>i. 100 * of_nat i) [1..<Suc (min (Suc k) 10)]\<rparr>)) \<and>
         sint (10 - of_nat k :: 32 word) = 10 - int k \<and>
         fires 11 (case HelloObject23_ctor params \<lparr>curTick = t0, queue = [], requests = []\<rparr> of
                     (this, h) \<Rightarrow> startup this h) = None"
proof -
  from k have "k = 0 \<or> k = 1 \<or> k = 2 \<or> k = 3 \<or> k = 4 \<or> k = 5 \<or> k = 6 \<or> k = 7 \<or> k = 8
      \<or> k = 9 \<or> k = 10" by arith
  then show ?thesis
    by (elim disjE)
       (simp_all add: eval_nat_numeral HelloObject23_ctor_def startup_eq fire_def
          processEvent_def schedule_def)
qed

theorem ten_firings_witness:
  "fires 3 (case HelloObject23_ctor \<lparr>name = ''hello''\<rparr> \<lparr>curTick = 0, queue = [], requests = []\<rparr> of
              (this, h) \<Rightarrow> startup this h) =
     Some (Inr (\<lparr>event = \<lparr>callback = ProcessEvent, ev_name = ''hello''\<rparr>,
                  latency = 100, timesLeft = 7\<rparr>,
                \<lparr>curTick = 300,
                  queue = [(400, \<lparr>callback = ProcessEvent, ev_name = ''hello''\<rparr>)],
                  requests = [100, 200, 300, 400]\<rparr>))"
  using ten_firings [of 3 "\<lparr>name = ''hello''\<rparr>" 0] by (simp add: eval_nat_numeral)

text \<open>
  C6, as amended. For an initial counter \<open>\<le> 0\<close> other than the least \<open>int\<close> value:
  activation schedules a callback all the same (nothing guards against such a
  counter), the first firing decrements the counter to the initial value minus 1 and
  schedules nothing, nothing is pending afterwards, and a second firing does not
  exist: exactly one firing occurs.
\<close>

theorem nonpositive_initial_counter:
  assumes neg: "sint (timesLeft this) \<le> 0"
    and ok: "sint (timesLeft this) \<noteq> - (2 ^ 31)"
    and q: "queue h = []"
  shows "queue (snd (startup this h)) = [(latency this, event this)] \<and>
         (\<exists>this' h'.
            fire (startup this h) = Some (Inr (this', h')) \<and>
            sint (timesLeft this') = sint (timesLeft this) - 1 \<and>
            queue h' = [] \<and>
            requests h' = requests h @ [latency this] \<and>
            fire (this', h') = None) \<and>
         fires (Suc (Suc 0)) (startup this h) = None"
proof -
  let ?h = "h\<lparr>queue := queue h @ [(latency this, event this)],
              requests := requests h @ [latency this]\<rparr>"
  let ?o' = "this\<lparr>timesLeft := timesLeft this - 1\<rparr>"
  let ?h' = "?h\<lparr>curTick := latency this, queue := []\<rparr>"
  have q1: "queue ?h = (latency this, event this) # []" using q by simp
  have f: "fire (this, ?h) = Some (Inr (?o', ?h'))"
    using neg by (simp add: fire_pending [OF q1] processEvent_defined [OF ok])
  have e: "fire (?o', ?h') = None" by (simp add: fire_empty)
  have two: "fires (Suc (Suc 0)) (this, ?h) = None" using f e by simp
  from f e two q sint_dec [OF ok] show ?thesis by (simp add: startup_eq)
qed

theorem nonpositive_initial_counter_witness:
  "\<exists>this' h'.
     fire (startup \<lparr>event = \<lparr>callback = ProcessEvent, ev_name = ''hello''\<rparr>,
                     latency = 100, timesLeft = 0\<rparr>
                   \<lparr>curTick = 0, queue = [], requests = []\<rparr>) = Some (Inr (this', h')) \<and>
     sint (timesLeft this') = - 1 \<and> queue h' = [] \<and> requests h' = [100]"
  using nonpositive_initial_counter
    [of "\<lparr>event = \<lparr>callback = ProcessEvent, ev_name = ''hello''\<rparr>,
          latency = 100, timesLeft = 0\<rparr>"
        "\<lparr>curTick = 0, queue = [], requests = []\<rparr>"]
  by auto

text \<open>
  C6 as stated fails at the least \<open>int\<close> value: the first firing overflows instead of
  decrementing the counter to the initial value minus 1.
\<close>

theorem least_int_initial_counter_counterexample:
  "sint (timesLeft \<lparr>event = \<lparr>callback = ProcessEvent, ev_name = ''hello''\<rparr>,
                    latency = 100, timesLeft = - 2147483648\<rparr>) \<le> 0 \<and>
   fire (startup \<lparr>event = \<lparr>callback = ProcessEvent, ev_name = ''hello''\<rparr>,
                   latency = 100, timesLeft = - 2147483648\<rparr>
                 \<lparr>curTick = 0, queue = [], requests = []\<rparr>) = Some (Inl SignedOverflow)"
  by (simp add: startup_eq fire_def processEvent_def)

subsection \<open>Invariants of the life cycle\<close>

text \<open>
  C3. Take an object with a positive counter (as the constructor builds it) on a host
  with nothing pending, and any state \<open>(this', h')\<close> of its life cycle: after
  construction, or after activation and any number of firings. Then at most one
  callback is pending; the counter is not above its initial value, and the next state
  of the life cycle, if there is one, has the same counter (activation) or the counter
  minus 1 (a firing); after activation a callback is pending exactly when the counter
  is positive; and once the counter is \<open>\<le> 0\<close> nothing is pending, no firing is
  possible, the life cycle has no later state, and the callback itself would leave
  any host state as it is, so no scheduling call can follow.
\<close>

theorem done_is_terminal:
  assumes pos: "0 < sint (timesLeft this)"
    and q: "queue h = []"
    and reach: "lifecycle n (this, h) = Some (Inr (this', h'))"
  shows "length (queue h') \<le> 1 \<and>
         sint (timesLeft this') \<le> sint (timesLeft this) \<and>
         (\<forall>this'' h''. lifecycle (Suc n) (this, h) = Some (Inr (this'', h'')) \<longrightarrow>
            sint (timesLeft this'') = sint (timesLeft this') - (if n = 0 then 0 else 1)) \<and>
         (0 < n \<longrightarrow> (queue h' \<noteq> [] \<longleftrightarrow> 0 < sint (timesLeft this'))) \<and>
         (sint (timesLeft this') \<le> 0 \<longrightarrow>
            queue h' = [] \<and> fire (this', h') = None \<and>
            (\<forall>m>n. lifecycle m (this, h) = None) \<and>
            (\<forall>hx. \<exists>this''. processEvent this' hx = Inr (this'', hx)))"
proof (cases n)
  case 0
  with reach have same: "this' = this" "h' = h" by simp_all
  from 0 same pos q show ?thesis by (simp add: startup_eq)
next
  case (Suc k)
  let ?c = "sint (timesLeft this)"
  let ?h = "h\<lparr>queue := queue h @ [(latency this, event this)],
              requests := requests h @ [latency this]\<rparr>"
  have q1: "queue ?h = [(latency this, event this)]" using q by simp
  have life: "lifecycle (Suc j) (this, h) = fires j (this, ?h)" for j
    by (simp add: startup_eq)
  from reach Suc have run: "fires k (this, ?h) = Some (Inr (this', h'))"
    by (simp add: startup_eq)
  have k: "int k \<le> ?c"
  proof (rule ccontr)
    assume "\<not> int k \<le> ?c"
    with pos have "nat ?c < k" by linarith
    from fires_beyond [OF q1 pos this] run show False by simp
  qed
  from fires_upto [OF q1 pos k] run
  have cnt: "sint (timesLeft this') = ?c - int k"
    and qu: "queue h' = (if int k < ?c
                         then [(latency this + of_nat k * latency this, event this)] else [])"
    by auto
  have len: "length (queue h') \<le> 1" using qu by simp
  have le: "sint (timesLeft this') \<le> ?c" using cnt by simp
  have nxt: "\<forall>this'' h''. lifecycle (Suc n) (this, h) = Some (Inr (this'', h'')) \<longrightarrow>
            sint (timesLeft this'') = sint (timesLeft this') - (if n = 0 then 0 else 1)"
  proof (intro allI impI)
    fix this'' h''
    assume "lifecycle (Suc n) (this, h) = Some (Inr (this'', h''))"
    then have run': "fires (Suc k) (this, ?h) = Some (Inr (this'', h''))"
      using Suc by (simp only: life)
    have k': "int (Suc k) \<le> ?c"
    proof (rule ccontr)
      assume "\<not> int (Suc k) \<le> ?c"
      with pos have "nat ?c < Suc k" by linarith
      from fires_beyond [OF q1 pos this] run' show False by simp
    qed
    from fires_upto [OF q1 pos k'] run'
    have "sint (timesLeft this'') = ?c - int (Suc k)" by auto
    with cnt Suc show "sint (timesLeft this'') = sint (timesLeft this') - (if n = 0 then 0 else 1)"
      by simp
  qed
  have act: "queue h' \<noteq> [] \<longleftrightarrow> 0 < sint (timesLeft this')"
    using qu cnt by simp
  have fin: "queue h' = [] \<and> fire (this', h') = None \<and>
            (\<forall>m>n. lifecycle m (this, h) = None) \<and>
            (\<forall>hx. \<exists>this''. processEvent this' hx = Inr (this'', hx))"
    if stop: "sint (timesLeft this') \<le> 0"
  proof -
    from stop cnt k have kc: "int k = ?c" by simp
    with cnt have zero: "sint (timesLeft this') = 0" by simp
    from qu kc have e: "queue h' = []" by simp
    have later: "\<forall>m>n. lifecycle m (this, h) = None"
    proof (intro allI impI)
      fix m assume "n < m"
      then obtain j where m: "m = Suc j" and j: "k < j" using Suc by (cases m) auto
      from j kc pos have "nat ?c < j" by linarith
      from fires_beyond [OF q1 pos this] show "lifecycle m (this, h) = None"
        unfolding m by (simp only: life)
    qed
    have ok: "sint (timesLeft this') \<noteq> - (2 ^ 31)" using zero by simp
    have cb: "\<forall>hx. \<exists>this''. processEvent this' hx = Inr (this'', hx)"
      using zero by (simp add: processEvent_defined [OF ok])
    from e later cb show ?thesis by (simp add: fire_empty)
  qed
  from len le nxt act fin Suc show ?thesis by simp
qed

theorem done_is_terminal_witness:
  "lifecycle 11 (\<lparr>event = \<lparr>callback = ProcessEvent, ev_name = ''hello''\<rparr>,
                   latency = 100, timesLeft = 10\<rparr>,
                 \<lparr>curTick = 0, queue = [], requests = []\<rparr>) =
     Some (Inr (\<lparr>event = \<lparr>callback = ProcessEvent, ev_name = ''hello''\<rparr>,
                  latency = 100, timesLeft = 0\<rparr>,
                \<lparr>curTick = 1000, queue = [],
                  requests = [100, 200, 300, 400, 500, 600, 700, 800, 900, 1000]\<rparr>)) \<and>
   lifecycle 12 (\<lparr>event = \<lparr>callback = ProcessEvent, ev_name = ''hello''\<rparr>,
                   latency = 100, timesLeft = 10\<rparr>,
                 \<lparr>curTick = 0, queue = [], requests = []\<rparr>) = None"
proof -
  let ?ev = "\<lparr>callback = ProcessEvent, ev_name = ''hello''\<rparr>"
  let ?o = "\<lparr>event = ?ev, latency = 100, timesLeft = 10\<rparr>"
  let ?h = "\<lparr>curTick = 0, queue = [], requests = []\<rparr>"
  let ?o' = "\<lparr>event = ?ev, latency = 100, timesLeft = 0\<rparr>"
  let ?h' = "\<lparr>curTick = 1000, queue = [],
               requests = [100, 200, 300, 400, 500, 600, 700, 800, 900, 1000]\<rparr>"
  have pos: "0 < sint (timesLeft ?o)" by simp
  have q: "queue ?h = []" by simp
  have r: "lifecycle 11 (?o, ?h) = Some (Inr (?o', ?h'))"
    by (simp add: eval_nat_numeral startup_eq fire_def processEvent_def schedule_def)
  from done_is_terminal [OF pos q r]
  have "\<forall>m>11. lifecycle m (?o, ?h) = None" by simp
  then have "lifecycle 12 (?o, ?h) = None" by simp
  with r show ?thesis by simp
qed

text \<open>
  C10. The constructor sets the delay to 100; \<open>startup\<close> returns the object as it
  was; \<open>processEvent\<close>, when it returns, has changed no member but \<open>timesLeft\<close>; and in
  every state of the life cycle \<open>latency\<close> and \<open>event\<close> are those of the constructed
  object.
\<close>

theorem only_counter_changes:
  "latency (fst (HelloObject23_ctor params h)) = 100 \<and>
   fst (startup this h) = this \<and>
   (\<forall>this' h'. processEvent this h = Inr (this', h') \<longrightarrow>
      this' = this\<lparr>timesLeft := timesLeft this'\<rparr>) \<and>
   (\<forall>n this' h'. lifecycle n (this, h) = Some (Inr (this', h')) \<longrightarrow>
      latency this' = latency this \<and> event this' = event this)"
proof -
  have pe: "\<forall>this' h'. processEvent this h = Inr (this', h') \<longrightarrow>
      this' = this\<lparr>timesLeft := timesLeft this'\<rparr>"
    by (auto simp: processEvent_def Let_def split: if_splits)
  have life: "\<forall>n this' h'. lifecycle n (this, h) = Some (Inr (this', h')) \<longrightarrow>
      latency this' = latency this \<and> event this' = event this"
  proof (intro allI impI)
    fix n this' h'
    assume r: "lifecycle n (this, h) = Some (Inr (this', h'))"
    show "latency this' = latency this \<and> event this' = event this"
    proof (cases n)
      case 0
      with r show ?thesis by simp
    next
      case (Suc k)
      with r have "fires k (startup this h) = Some (Inr (this', h'))" by simp
      from fires_frame [OF this] show ?thesis by (simp add: startup_eq)
    qed
  qed
  from pe life show ?thesis by (simp add: HelloObject23_ctor_def startup_eq)
qed

theorem only_counter_changes_witness:
  "\<exists>this' h'.
     lifecycle 3 (\<lparr>event = \<lparr>callback = ProcessEvent, ev_name = ''hello''\<rparr>,
                    latency = 100, timesLeft = 10\<rparr>,
                  \<lparr>curTick = 0, queue = [], requests = []\<rparr>) = Some (Inr (this', h')) \<and>
     timesLeft this' = 8 \<and> latency this' = 100 \<and>
     event this' = \<lparr>callback = ProcessEvent, ev_name = ''hello''\<rparr>"
proof -
  let ?ev = "\<lparr>callback = ProcessEvent, ev_name = ''hello''\<rparr>"
  let ?o = "\<lparr>event = ?ev, latency = 100, timesLeft = 10\<rparr>"
  let ?h = "\<lparr>curTick = 0, queue = [], requests = []\<rparr>"
  let ?o' = "\<lparr>event = ?ev, latency = 100, timesLeft = 8\<rparr>"
  let ?h' = "\<lparr>curTick = 200, queue = [(300, ?ev)], requests = [100, 200, 300]\<rparr>"
  have r: "lifecycle 3 (?o, ?h) = Some (Inr (?o', ?h'))"
    by (simp add: eval_nat_numeral startup_eq fire_def processEvent_def schedule_def)
  from only_counter_changes [of "\<lparr>name = ''hello''\<rparr>" ?h ?o] r
  have "latency ?o' = latency ?o \<and> event ?o' = event ?o" by blast
  with r show ?thesis by simp
qed

end
